theory Spec2Isabelle
  imports Main "HOL-Library.FSet" "HOL-Library.AList" "HOL-Library.List_Lexorder"
    "HOL-Library.Char_ord"
begin

section \<open>Python strings\<close>

text \<open>
  A Python \<open>str\<close> is modelled as a \<open>string\<close> whose characters are the code points
  below 256 (ASCII and the Latin-1 supplement); \<open>code\<close> is Python's \<open>ord\<close>.
  \<open>str.lower\<close> maps \<open>A-Z\<close> and the Latin-1 capitals (\<open>0xC0-0xDE\<close> without the
  multiplication sign \<open>0xD7\<close>) to the letter 32 code points above and leaves every other
  character alone.
\<close>

definition code :: "char \<Rightarrow> nat" where
  "code c = of_char c"

definition is_upper :: "char \<Rightarrow> bool" where
  "is_upper c =
     ((65 \<le> code c \<and> code c \<le> 90) \<or> (192 \<le> code c \<and> code c \<le> 222 \<and> code c \<noteq> 215))"

definition lower_char :: "char \<Rightarrow> char" where
  "lower_char c = (if is_upper c then char_of (code c + 32) else c)"

definition lower :: "string \<Rightarrow> string" where
  "lower s = map lower_char s"

text \<open>\<open>s.startswith(p)\<close>, \<open>s.endswith(p)\<close> and the substring test \<open>sub in s\<close>.\<close>

definition startswith :: "string \<Rightarrow> string \<Rightarrow> bool" where
  "startswith s p = (take (length p) s = p)"

definition endswith :: "string \<Rightarrow> string \<Rightarrow> bool" where
  "endswith s p = (length p \<le> length s \<and> drop (length s - length p) s = p)"

fun contains :: "string \<Rightarrow> string \<Rightarrow> bool" where
  "contains sub [] = (sub = [])"
| "contains sub (c # cs) = (startswith (c # cs) sub \<or> contains sub cs)"

text \<open>
  \<open>s.find(c)\<close>, \<open>s.find(c, start)\<close> and \<open>s.rfind(c)\<close> for a single character \<open>c\<close>: the
  index of the first (last) occurrence, \<open>-1\<close> when there is none. \<open>split1 s c\<close> is
  \<open>s.split(c, 1)\<close> for a string that contains \<open>c\<close>: the text before the first \<open>c\<close> and
  the text after it.
\<close>

definition find :: "string \<Rightarrow> char \<Rightarrow> int" where
  "find s c = (if c \<in> set s then int (length (takeWhile (\<lambda>x. x \<noteq> c) s)) else - 1)"

definition find_from :: "string \<Rightarrow> char \<Rightarrow> nat \<Rightarrow> int" where
  "find_from s c start =
     (if c \<in> set (drop start s)
      then int (start + length (takeWhile (\<lambda>x. x \<noteq> c) (drop start s))) else - 1)"

definition rfind :: "string \<Rightarrow> char \<Rightarrow> int" where
  "rfind s c =
     (if c \<in> set s
      then int (length s) - 1 - int (length (takeWhile (\<lambda>x. x \<noteq> c) (rev s))) else - 1)"

definition split1 :: "string \<Rightarrow> char \<Rightarrow> string \<times> string" where
  "split1 s c = (takeWhile (\<lambda>x. x \<noteq> c) s, tl (dropWhile (\<lambda>x. x \<noteq> c) s))"

section \<open>Tokenisation: \<open>re.findall(r'\b[a-z0-9]+\b', text.lower())\<close>\<close>

text \<open>
  \<open>is_token_char\<close> is the character class \<open>[a-z0-9]\<close>. \<open>is_word_char\<close> is the class
  \<open>\w\<close> of a \<open>str\<close> pattern: the alphanumeric code points and the underscore; below 256
  these are the ASCII letters and digits, \<open>_\<close>, the Latin-1 letters, and the superscript
  digits and fractions of Latin-1.
\<close>

definition is_token_char :: "char \<Rightarrow> bool" where
  "is_token_char c = ((97 \<le> code c \<and> code c \<le> 122) \<or> (48 \<le> code c \<and> code c \<le> 57))"

definition is_word_char :: "char \<Rightarrow> bool" where
  "is_word_char c =
     ((48 \<le> code c \<and> code c \<le> 57) \<or> (65 \<le> code c \<and> code c \<le> 90) \<or> code c = 95
      \<or> (97 \<le> code c \<and> code c \<le> 122)
      \<or> code c \<in> {170, 178, 179, 181, 185, 186, 188, 189, 190}
      \<or> (192 \<le> code c \<and> code c \<noteq> 215 \<and> code c \<noteq> 247))"

text \<open>
  \<open>\b\<close> at a position holds when exactly one of the character before it (\<open>prev\<close>, none
  at the start of the text) and the character after it (the head of \<open>rest\<close>, none at the
  end) is a word character.
\<close>

definition word_boundary :: "char option \<Rightarrow> string \<Rightarrow> bool" where
  "word_boundary prev rest =
     ((case prev of None \<Rightarrow> False | Some c \<Rightarrow> is_word_char c)
        \<noteq> (case rest of [] \<Rightarrow> False | c # _ \<Rightarrow> is_word_char c))"

text \<open>
  One match attempt at a position: \<open>\b\<close>, then the greedy \<open>[a-z0-9]+\<close>, which first
  takes the whole run of token characters and gives characters back one at a time
  (\<open>try_len\<close>) until the closing \<open>\b\<close> holds or no character is left. The result is the
  length of the match.
\<close>

fun try_len :: "string \<Rightarrow> nat \<Rightarrow> nat option" where
  "try_len s 0 = None"
| "try_len s (Suc k) =
     (if word_boundary (Some (s ! k)) (drop (Suc k) s) then Some (Suc k) else try_len s k)"

definition match_at :: "char option \<Rightarrow> string \<Rightarrow> nat option" where
  "match_at prev s =
     (if word_boundary prev s then try_len s (length (takeWhile is_token_char s)) else None)"

lemma try_len_pos: "try_len s n = Some k \<Longrightarrow> 0 < k \<and> k \<le> n"
  by (induction n) (auto split: if_splits)

lemma match_at_pos: "match_at prev s = Some k \<Longrightarrow> 0 < k \<and> k \<le> length s"
  unfolding match_at_def
  by (auto split: if_splits dest!: try_len_pos intro: order_trans[OF _ length_takeWhile_le])

text \<open>
  \<open>findall\<close> scans from left to right: where an attempt matches, the match is a result
  and the scan goes on behind it; where it fails, the scan moves one character on.
\<close>

function findall :: "char option \<Rightarrow> string \<Rightarrow> string list" where
  "findall prev [] = []"
| "findall prev (c # cs) =
     (case match_at prev (c # cs) of
        Some k \<Rightarrow> take k (c # cs) # findall (Some ((c # cs) ! (k - 1))) (drop k (c # cs))
      | None \<Rightarrow> findall (Some c) cs)"
  by pat_completeness auto
termination
  by (relation "measure (\<lambda>(p, s). length s)") (auto dest: match_at_pos)

definition tokenize :: "string \<Rightarrow> string list" where
  "tokenize text = findall None (lower text)"

text \<open>
  The specification's reading of tokenisation, for comparison: the maximal runs of ASCII
  letters and digits of the lowercased text. \<open>runs p s\<close> lists the maximal runs of
  elements of \<open>s\<close> that satisfy \<open>p\<close>, in order.
\<close>

function runs :: "('a \<Rightarrow> bool) \<Rightarrow> 'a list \<Rightarrow> 'a list list" where
  "runs p [] = []"
| "runs p (x # xs) =
     (if p x then (x # takeWhile p xs) # runs p (dropWhile p xs) else runs p xs)"
  by pat_completeness auto
termination
  by (relation "measure (\<lambda>(p, xs). length xs)")
     (auto intro: le_imp_less_Suc length_dropWhile_le)

definition is_ascii_alnum :: "char \<Rightarrow> bool" where
  "is_ascii_alnum c =
     ((48 \<le> code c \<and> code c \<le> 57) \<or> (65 \<le> code c \<and> code c \<le> 90)
      \<or> (97 \<le> code c \<and> code c \<le> 122))"

definition spec_tokens :: "string \<Rightarrow> string list" where
  "spec_tokens text = runs is_ascii_alnum (lower text)"

text \<open>Whether the character before a position is a word character (none: no).\<close>

definition prev_word :: "char option \<Rightarrow> bool" where
  "prev_word prev = (case prev of None \<Rightarrow> False | Some c \<Rightarrow> is_word_char c)"

section \<open>URL parsing: \<open>urllib.parse\<close>\<close>

text \<open>
  \<open>urlparse\<close>, \<open>urlunparse\<close> and \<open>urldefrag\<close> are the standard library's; the model
  follows \<open>Lib/urllib/parse.py\<close> and \<open>Lib/ipaddress.py\<close> of CPython 3.11.10 statement
  by statement. Parsing raises \<open>ValueError\<close> for a network location with an unmatched
  square bracket or with a bracketed host that is not an IPv6 or IPvFuture literal. Its
  other check, \<open>_checknetloc\<close>, looks for \<open>/?#@:\<close> in the NFKC form of a network
  location that is not ASCII; no code point below 256 normalises to one of them, so it
  never raises here.
\<close>

datatype error = ValueError

definition scheme_chars :: string where
  "scheme_chars = ''abcdefghijklmnopqrstuvwxyzABCDEFGHIJKLMNOPQRSTUVWXYZ0123456789+-.''"

definition uses_netloc :: "string list" where
  "uses_netloc = ['''', ''ftp'', ''http'', ''gopher'', ''nntp'', ''telnet'',
     ''imap'', ''wais'', ''file'', ''mms'', ''https'', ''shttp'',
     ''snews'', ''prospero'', ''rtsp'', ''rtsps'', ''rtspu'', ''rsync'',
     ''svn'', ''svn+ssh'', ''sftp'', ''nfs'', ''git'', ''git+ssh'',
     ''ws'', ''wss'']"

definition uses_params :: "string list" where
  "uses_params = ['''', ''ftp'', ''hdl'', ''prospero'', ''http'', ''imap'',
     ''https'', ''shttp'', ''rtsp'', ''rtsps'', ''rtspu'', ''sip'',
     ''sips'', ''mms'', ''sftp'', ''tel'']"

text \<open>
  A URL first loses its leading C0 control characters and spaces (code points 0 to 32),
  then every tab, carriage return and line feed.
\<close>

definition c0_control_or_space :: "char \<Rightarrow> bool" where
  "c0_control_or_space c = (code c \<le> 32)"

definition lstrip_c0 :: "string \<Rightarrow> string" where
  "lstrip_c0 url = dropWhile c0_control_or_space url"

definition unsafe_url_bytes :: string where
  "unsafe_url_bytes = [CHR 0x09, CHR 0x0D, CHR 0x0A]"

definition remove_unsafe :: "string \<Rightarrow> string" where
  "remove_unsafe url = filter (\<lambda>c. c \<notin> set unsafe_url_bytes) url"

text \<open>
  \<open>_splitnetloc(url, start)\<close>: the network location runs from \<open>start\<close> to the first of
  \<open>/\<close>, \<open>?\<close> and \<open>#\<close> behind it, or to the end.
\<close>

definition splitnetloc :: "string \<Rightarrow> nat \<Rightarrow> string \<times> string" where
  "splitnetloc url start =
     (let delim = foldl (\<lambda>delim c. let wdelim = find_from url c start
                                   in if 0 \<le> wdelim then min delim wdelim else delim)
                    (int (length url)) ''/?#''
      in (take (nat delim - start) (drop start url), drop (nat delim) url))"

text \<open>
  \<open>s.split(c)\<close> for a single character: the pieces between the occurrences of \<open>c\<close>,
  always at least one. \<open>s.partition(c)\<close>: the text before the first \<open>c\<close>, the
  separator (empty when \<open>c\<close> does not occur) and the text behind it.
\<close>

fun split_on :: "char \<Rightarrow> string \<Rightarrow> string list" where
  "split_on c [] = [[]]"
| "split_on c (x # xs) =
     (if x = c then [] # split_on c xs
      else (x # hd (split_on c xs)) # tl (split_on c xs))"

definition partition :: "string \<Rightarrow> char \<Rightarrow> string \<times> string \<times> string" where
  "partition s c =
     (if c \<in> set s
      then (takeWhile (\<lambda>x. x \<noteq> c) s, [c], tl (dropWhile (\<lambda>x. x \<noteq> c) s))
      else (s, '''', ''''))"

text \<open>
  \<open>ipaddress.IPv4Address(s)\<close> accepts four octets separated by dots, each of one to
  three ASCII digits without a leading zero and at most 255. \<open>decimal\<close> is \<open>int(s, 10)\<close>
  on digits, \<open>hex_of_nat\<close> the format \<open>'%x'\<close>.
\<close>

definition is_digit :: "char \<Rightarrow> bool" where
  "is_digit c = (48 \<le> code c \<and> code c \<le> 57)"

definition decimal :: "string \<Rightarrow> nat" where
  "decimal s = foldl (\<lambda>n c. 10 * n + (code c - 48)) 0 s"

definition parse_octet_ok :: "string \<Rightarrow> bool" where
  "parse_octet_ok octet_str =
     (octet_str \<noteq> '''' \<and> list_all is_digit octet_str \<and> length octet_str \<le> 3
      \<and> \<not> (octet_str \<noteq> ''0'' \<and> hd octet_str = CHR ''0'')
      \<and> decimal octet_str \<le> 255)"

definition ipv4_address_ok :: "string \<Rightarrow> bool" where
  "ipv4_address_ok addr_str =
     (CHR ''/'' \<notin> set addr_str \<and> addr_str \<noteq> ''''
      \<and> (let octets = split_on CHR ''.'' addr_str
          in length octets = 4 \<and> list_all parse_octet_ok octets))"

fun hex_of_nat :: "nat \<Rightarrow> string" where
  "hex_of_nat n =
     (if n < 16 then [''0123456789abcdef'' ! n]
      else hex_of_nat (n div 16) @ [''0123456789abcdef'' ! (n mod 16)])"

text \<open>
  \<open>ipaddress.IPv6Address(s)\<close>: an optional scope behind \<open>%\<close>; at least three parts
  between colons; a dotted last part is an IPv4 address and stands for two hextets; at
  most nine parts; at most one empty part inside (the \<open>::\<close>), with which an empty first
  or last part must be adjacent; eight hextets, or fewer with \<open>::\<close>; each hextet one to
  four hexadecimal digits.
\<close>

definition is_hex_digit :: "char \<Rightarrow> bool" where
  "is_hex_digit c = (c \<in> set ''0123456789ABCDEFabcdef'')"

definition parse_hextet_ok :: "string \<Rightarrow> bool" where
  "parse_hextet_ok hextet_str =
     (list_all is_hex_digit hextet_str \<and> length hextet_str \<le> 4 \<and> hextet_str \<noteq> '''')"

definition hextets_ok :: "string list \<Rightarrow> bool" where
  "hextets_ok parts =
     (length parts \<le> 9
      \<and> (case filter (\<lambda>i. parts ! i = '''') [1..<length parts - 1] of
            [] \<Rightarrow>
              length parts = 8 \<and> hd parts \<noteq> '''' \<and> last parts \<noteq> ''''
              \<and> list_all parse_hextet_ok parts
          | [skip_index] \<Rightarrow>
              (let parts_hi = (if hd parts = '''' then skip_index - 1 else skip_index);
                   parts_lo = (if last parts = '''' then length parts - skip_index - 1 - 1
                               else length parts - skip_index - 1)
               in (if hd parts = '''' then parts_hi = 0 else True)
                  \<and> (if last parts = '''' then parts_lo = 0 else True)
                  \<and> parts_hi + parts_lo < 8
                  \<and> list_all parse_hextet_ok (take parts_hi parts)
                  \<and> list_all parse_hextet_ok (drop (length parts - parts_lo) parts))
          | _ \<Rightarrow> False))"

definition ipv6_int_ok :: "string \<Rightarrow> bool" where
  "ipv6_int_ok ip_str =
     (ip_str \<noteq> ''''
      \<and> (let parts = split_on CHR '':'' ip_str
          in 3 \<le> length parts
             \<and> (if CHR ''.'' \<in> set (last parts)
                 then ipv4_address_ok (last parts)
                      \<and> (let octets = map decimal (split_on CHR ''.'' (last parts))
                          in hextets_ok (butlast parts
                               @ [hex_of_nat (256 * (octets ! 0) + octets ! 1),
                                  hex_of_nat (256 * (octets ! 2) + octets ! 3)]))
                 else hextets_ok parts)))"

definition ipv6_address_ok :: "string \<Rightarrow> bool" where
  "ipv6_address_ok addr_str =
     (CHR ''/'' \<notin> set addr_str
      \<and> (case partition addr_str CHR ''%'' of
            (addr, sep, scope_id) \<Rightarrow>
              \<not> (sep \<noteq> '''' \<and> (scope_id = '''' \<or> CHR ''%'' \<in> set scope_id))
              \<and> ipv6_int_ok addr))"

text \<open>
  \<open>_check_bracketed_host\<close>: a host that starts with \<open>v\<close> must match
  \<open>\Av[a-fA-F0-9]+\..+\Z\<close>; any other must be an IP address and not an IPv4 one. The
  result is whether the check passes. The bracketed host of a network location is
  \<open>netloc.partition('[')[2].partition(']')[0]\<close>.
\<close>

definition ipvfuture_ok :: "string \<Rightarrow> bool" where
  "ipvfuture_ok hostname =
     (case hostname of
        [] \<Rightarrow> False
      | v # rest \<Rightarrow>
          v = CHR ''v'' \<and> takeWhile is_hex_digit rest \<noteq> ''''
          \<and> (case dropWhile is_hex_digit rest of
                [] \<Rightarrow> False
              | dot # tail \<Rightarrow> dot = CHR ''.'' \<and> tail \<noteq> '''' \<and> CHR 0x0A \<notin> set tail))"

definition check_bracketed_host :: "string \<Rightarrow> bool" where
  "check_bracketed_host hostname =
     (if startswith hostname ''v'' then ipvfuture_ok hostname
      else if ipv4_address_ok hostname then False
      else ipv6_address_ok hostname)"

definition bracketed_host :: "string \<Rightarrow> string" where
  "bracketed_host n = fst (partition (snd (snd (partition n CHR ''[''))) CHR '']'')"

text \<open>
  The stages of \<open>urlsplit\<close>, in the order of its body: the scheme (the text before the
  first colon, when it starts with an ASCII letter and is made of scheme characters;
  lowercased), the network location behind \<open>//\<close> with its bracket checks, the fragment
  behind the first \<open>#\<close>, the query behind the first \<open>?\<close>.
\<close>

definition is_ascii_alpha :: "char \<Rightarrow> bool" where
  "is_ascii_alpha c = ((65 \<le> code c \<and> code c \<le> 90) \<or> (97 \<le> code c \<and> code c \<le> 122))"

definition split_scheme :: "string \<Rightarrow> string \<times> string" where
  "split_scheme url =
     (let i = find url CHR '':''
      in if 0 < i \<and> is_ascii_alpha (hd url)
            \<and> list_all (\<lambda>c. c \<in> set scheme_chars) (take (nat i) url)
         then (lower (take (nat i) url), drop (nat i + 1) url) else ('''', url))"

definition split_netloc :: "string \<Rightarrow> string \<times> string" where
  "split_netloc url = (if take 2 url = ''//'' then splitnetloc url 2 else ('''', url))"

definition invalid_netloc :: "string \<Rightarrow> bool" where
  "invalid_netloc n =
     (if (CHR ''['' \<in> set n \<and> CHR '']'' \<notin> set n) \<or> (CHR '']'' \<in> set n \<and> CHR ''['' \<notin> set n)
      then True
      else if CHR ''['' \<in> set n \<and> CHR '']'' \<in> set n
           then \<not> check_bracketed_host (bracketed_host n)
           else False)"

definition split_fragment :: "string \<Rightarrow> string \<times> string" where
  "split_fragment url = (if CHR ''#'' \<in> set url then split1 url CHR ''#'' else (url, ''''))"

definition split_query :: "string \<Rightarrow> string \<times> string" where
  "split_query url = (if CHR ''?'' \<in> set url then split1 url CHR ''?'' else (url, ''''))"

definition urlsplit :: "string \<Rightarrow> error + (string \<times> string \<times> string \<times> string \<times> string)" where
  "urlsplit url0 =
     (let (s, url) = split_scheme (remove_unsafe (lstrip_c0 url0));
          (n, url) = split_netloc url
      in if invalid_netloc n then Inl ValueError
         else let (url, frag) = split_fragment url;
                  (url, q) = split_query url
              in Inr (s, n, url, q, frag))"

record ParseResult =
  scheme :: string
  netloc :: string
  path :: string
  params :: string
  query :: string
  fragment :: string

text \<open>
  \<open>_splitparams\<close>: the parameters are what follows the first \<open>;\<close> of the last path
  segment. The slices \<open>url[:i]\<close> and \<open>url[i+1:]\<close> are written out for \<open>i = -1\<close> too.
\<close>

definition splitparams :: "string \<Rightarrow> string \<times> string" where
  "splitparams url =
     (if CHR ''/'' \<in> set url
      then (let i = find_from url CHR '';'' (nat (rfind url CHR ''/''))
            in if i < 0 then (url, '''') else (take (nat i) url, drop (nat i + 1) url))
      else (let i = find url CHR '';''
            in if i < 0 then (butlast url, url) else (take (nat i) url, drop (nat i + 1) url)))"

definition urlparse :: "string \<Rightarrow> error + ParseResult" where
  "urlparse url0 =
     (case urlsplit url0 of
        Inl e \<Rightarrow> Inl e
      | Inr (s, n, url, q, frag) \<Rightarrow>
          let (url, a) =
                (if s \<in> set uses_params \<and> CHR '';'' \<in> set url
                 then splitparams url else (url, ''''))
          in Inr \<lparr>scheme = s, netloc = n, path = url, params = a,
                   query = q, fragment = frag\<rparr>)"

definition urlunsplit :: "string \<times> string \<times> string \<times> string \<times> string \<Rightarrow> string" where
  "urlunsplit components =
     (case components of (s, n, url, q, frag) \<Rightarrow>
        let url = (if n \<noteq> '''' \<or> (s \<noteq> '''' \<and> s \<in> set uses_netloc) \<or> take 2 url = ''//''
                   then ''//'' @ n @ (if url \<noteq> '''' \<and> take 1 url \<noteq> ''/'' then ''/'' @ url else url)
                   else url);
            url = (if s \<noteq> '''' then s @ '':'' @ url else url);
            url = (if q \<noteq> '''' then url @ ''?'' @ q else url);
            url = (if frag \<noteq> '''' then url @ ''#'' @ frag else url)
        in url)"

definition urlunparse :: "ParseResult \<Rightarrow> string" where
  "urlunparse r =
     (let url = (if params r \<noteq> '''' then path r @ '';'' @ params r else path r)
      in urlunsplit (scheme r, netloc r, url, query r, fragment r))"

text \<open>
  \<open>urldefrag(url)\<close> returns the URL without its fragment, and the fragment. A URL with
  no \<open>#\<close> is returned as it is; one with a \<open>#\<close> is parsed and put together again.
\<close>

definition urldefrag :: "string \<Rightarrow> error + (string \<times> string)" where
  "urldefrag url =
     (if CHR ''#'' \<in> set url
      then (case urlparse url of
              Inl e \<Rightarrow> Inl e
            | Inr r \<Rightarrow> Inr (urlunparse (r\<lparr>fragment := ''''\<rparr>), fragment r))
      else Inr (url, ''''))"


section \<open>The analytics aggregator: \<open>analytics.py\<close>\<close>

text \<open>
  The aggregator's \<open>data\<close> dictionary has four entries. The two collections of URLs are
  Python sets while the process runs and lists when they come out of the JSON file, so a
  collection is either; \<open>to_set\<close> is the conversion \<open>add_page\<close> starts with
  (\<open>isinstance(x, list)\<close>, then \<open>set(x)\<close>), \<open>as_set\<close> the set of its elements.
  A dictionary is an association list in insertion order: \<open>dict_get\<close> is \<open>d.get(k, v)\<close>,
  \<open>dict_set\<close> the assignment \<open>d[k] = v\<close>, which replaces the value of a key that is
  there and appends a new key at the end.
\<close>

datatype urls = PySet "string fset" | PyList "string list"

fun as_set :: "urls \<Rightarrow> string fset" where
  "as_set (PySet s) = s"
| "as_set (PyList l) = fset_of_list l"

fun to_set :: "urls \<Rightarrow> urls" where
  "to_set (PyList l) = PySet (fset_of_list l)"
| "to_set (PySet s) = PySet s"

text \<open>
  \<open>list(x)\<close>: the order in which Python lists the elements of a set is not fixed by
  the language; it is the parameter \<open>enum\<close> of every function that saves.
\<close>

fun as_list :: "(string fset \<Rightarrow> string list) \<Rightarrow> urls \<Rightarrow> string list" where
  "as_list enum (PySet s) = enum s"
| "as_list enum (PyList l) = l"

definition dict_get :: "('k \<times> 'v) list \<Rightarrow> 'k \<Rightarrow> 'v \<Rightarrow> 'v" where
  "dict_get d k v = (case map_of d k of Some x \<Rightarrow> x | None \<Rightarrow> v)"

definition dict_set :: "('k \<times> 'v) list \<Rightarrow> 'k \<Rightarrow> 'v \<Rightarrow> ('k \<times> 'v) list" where
  "dict_set d k v = AList.update k v d"

record longest_page_dict =
  url :: string
  word_count :: int

record analytics_data =
  unique_urls :: urls
  longest_page :: longest_page_dict
  word_frequencies :: "(string \<times> int) list"
  subdomains :: "(string \<times> urls) list"

text \<open>
  An \<open>Analytics\<close> object is its \<open>data\<close> and the file it saves to. \<open>save_file\<close> is what
  \<open>json.load\<close> gives for the file named \<open>self.save_file\<close>: \<open>None\<close> when the file is not
  there or does not parse, the document otherwise; \<open>json.dump\<close> followed by \<open>json.load\<close>
  gives back the document that was written.
\<close>

record Analytics =
  data :: analytics_data
  save_file :: "analytics_data option"

definition default_data :: analytics_data where
  "default_data =
     \<lparr>unique_urls = PySet {||}, longest_page = \<lparr>url = '''', word_count = 0\<rparr>,
      word_frequencies = [], subdomains = []\<rparr>"

definition load :: "analytics_data option \<Rightarrow> analytics_data" where
  "load file = (case file of Some d \<Rightarrow> d | None \<Rightarrow> default_data)"

definition init :: "analytics_data option \<Rightarrow> Analytics" where
  "init file = \<lparr>data = load file, save_file = file\<rparr>"

definition save :: "(string fset \<Rightarrow> string list) \<Rightarrow> Analytics \<Rightarrow> Analytics" where
  "save enum self =
     (let save_data =
            \<lparr>unique_urls = PyList (as_list enum (unique_urls (data self))),
             longest_page = longest_page (data self),
             word_frequencies = word_frequencies (data self),
             subdomains = map (\<lambda>(k, v). (k, PyList (as_list enum v))) (subdomains (data self))\<rparr>
      in self\<lparr>save_file := Some save_data\<rparr>)"

text \<open>The loop \<open>for word in words\<close> of \<open>add_page\<close>.\<close>

definition count_words :: "(string \<times> int) list \<Rightarrow> string list \<Rightarrow> (string \<times> int) list" where
  "count_words freq words =
     foldl (\<lambda>freq word. dict_set freq word (dict_get freq word 0 + 1)) freq words"

text \<open>
  \<open>add_page\<close> changes \<open>self.data\<close> step by step and saves at the end. \<open>urlparse\<close> can
  raise; then the changes made before it stay in \<open>self.data\<close> and nothing is saved. The
  result is the outcome of the call and the object after it.
\<close>

definition add_page ::
  "(string fset \<Rightarrow> string list) \<Rightarrow> string \<Rightarrow> string \<Rightarrow> Analytics \<Rightarrow> (error + unit) \<times> Analytics" where
  "add_page enum u text_content self =
     (let d = data self;
          d = d\<lparr>unique_urls := to_set (unique_urls d)\<rparr>;
          d = d\<lparr>subdomains := map (\<lambda>(subdomain, v). (subdomain, to_set v)) (subdomains d)\<rparr>;
          d = d\<lparr>unique_urls := PySet (finsert u (as_set (unique_urls d)))\<rparr>;
          words = tokenize text_content;
          wc = int (length words);
          d = (if wc > word_count (longest_page d)
               then d\<lparr>longest_page := \<lparr>url = u, word_count = wc\<rparr>\<rparr> else d);
          d = d\<lparr>word_frequencies := count_words (word_frequencies d) words\<rparr>
      in case urlparse u of
           Inl e \<Rightarrow> (Inl e, self\<lparr>data := d\<rparr>)
         | Inr parsed \<Rightarrow>
             let hostname = lower (netloc parsed);
                 d = (if contains ''uci.edu'' hostname
                      then (let subdomain = hostname;
                                subs = (if map_of (subdomains d) subdomain = None
                                        then dict_set (subdomains d) subdomain (PySet {||})
                                        else subdomains d)
                            in d\<lparr>subdomains :=
                                   dict_set subs subdomain
                                     (PySet (finsert u (as_set (dict_get subs subdomain (PySet {||})))))\<rparr>)
                      else d)
             in (Inr (), save enum (self\<lparr>data := d\<rparr>)))"

text \<open>A sequence of \<open>add_page\<close> calls on one object, whatever each call's outcome.\<close>

definition add_pages ::
  "(string fset \<Rightarrow> string list) \<Rightarrow> (string \<times> string) list \<Rightarrow> Analytics \<Rightarrow> Analytics" where
  "add_pages enum pages self = foldl (\<lambda>a (u, t). snd (add_page enum u t a)) self pages"

definition get_unique_page_count :: "Analytics \<Rightarrow> nat" where
  "get_unique_page_count self =
     (case unique_urls (data self) of PyList l \<Rightarrow> length l | PySet s \<Rightarrow> fcard s)"

definition get_longest_page :: "Analytics \<Rightarrow> longest_page_dict" where
  "get_longest_page self = longest_page (data self)"

text \<open>
  \<open>Counter.most_common(n)\<close>: the items by count, largest first, items of equal count in
  their order in the dictionary; all of them for \<open>n = None\<close>, none for \<open>n \<le> 0\<close>.
\<close>

definition most_common :: "int option \<Rightarrow> (string \<times> int) list \<Rightarrow> (string \<times> int) list" where
  "most_common n items =
     (let sorted_items = sort_key (\<lambda>(w, c). - c) items
      in case n of None \<Rightarrow> sorted_items
         | Some k \<Rightarrow> if k \<le> 0 then [] else take (nat k) sorted_items)"

definition get_top_words :: "int option \<Rightarrow> string set option \<Rightarrow> Analytics \<Rightarrow> (string \<times> int) list" where
  "get_top_words n stop_words self =
     (let stop_words = (case stop_words of None \<Rightarrow> {} | Some s \<Rightarrow> s);
          filtered_freq = filter (\<lambda>(w, c). w \<notin> stop_words) (word_frequencies (data self))
      in most_common n filtered_freq)"

definition get_subdomains :: "Analytics \<Rightarrow> (string \<times> nat) list" where
  "get_subdomains self =
     sort_key fst
       (map (\<lambda>(subdomain, urls).
               (subdomain, case urls of PyList l \<Rightarrow> length l | PySet s \<Rightarrow> fcard s))
          (subdomains (data self)))"

text \<open>
  The state the specification speaks of: the set of unique pages, the longest page, the
  word frequencies and the pages of each subdomain as sets.
\<close>

definition abstract_state ::
  "analytics_data \<Rightarrow> string fset \<times> longest_page_dict \<times> (string \<times> int) list \<times> (string \<times> string fset) list" where
  "abstract_state d =
     (as_set (unique_urls d), longest_page d, word_frequencies d,
      map (\<lambda>(k, v). (k, as_set v)) (subdomains d))"

section \<open>The crawl callback: \<open>scraper.py\<close>\<close>

text \<open>
  \<open>is_valid\<close> reads the module's \<open>seen\<close> set and changes nothing. The extension test
  is \<open>re.match\<close> of \<open>.*\.(css|js|...)$\<close> on the lowercased path: some extension of the
  list, behind a dot, ends the path or stands before one final line feed, and no line
  feed comes before the dot (\<open>.\<close> does not match one). The \<open>ValueError\<close> of
  \<open>urlparse\<close> leaves \<open>is_valid\<close> as it is; the handler for \<open>TypeError\<close> raises
  it again, and a \<open>str\<close> argument never causes one.
\<close>

definition allowed_domains :: "string list" where
  "allowed_domains = [''.ics.uci.edu'', ''.cs.uci.edu'', ''.informatics.uci.edu'', ''.stat.uci.edu'']"

definition low_value_extensions :: "string list" where
  "low_value_extensions =
     [''css'', ''js'', ''bmp'', ''gif'', ''jpg'', ''jpeg'', ''ico'',
      ''png'', ''tif'', ''tiff'', ''mid'', ''mp2'', ''mp3'', ''mp4'',
      ''wav'', ''avi'', ''mov'', ''mpeg'', ''ram'', ''m4v'', ''mkv'', ''ogg'', ''ogv'', ''pdf'',
      ''ps'', ''eps'', ''tex'', ''ppt'', ''pptx'', ''doc'', ''docx'', ''xls'', ''xlsx'', ''names'',
      ''data'', ''dat'', ''exe'', ''bz2'', ''tar'', ''msi'', ''bin'', ''7z'', ''psd'', ''dmg'', ''iso'',
      ''epub'', ''dll'', ''cnf'', ''tgz'', ''sha1'',
      ''thmx'', ''mso'', ''arff'', ''rtf'', ''jar'', ''csv'',
      ''rm'', ''smil'', ''wmv'', ''swf'', ''wma'', ''zip'', ''rar'', ''gz'']"

definition newline :: char where
  "newline = CHR 0x0A"

definition extension_match :: "string \<Rightarrow> string \<Rightarrow> bool" where
  "extension_match p ext =
     (let suffix = CHR ''.'' # ext
      in (endswith p suffix \<and> newline \<notin> set (take (length p - length suffix) p))
         \<or> (endswith p (suffix @ [newline])
             \<and> newline \<notin> set (take (length p - length suffix - 1) p)))"

definition low_value_path :: "string \<Rightarrow> bool" where
  "low_value_path p = list_ex (extension_match p) low_value_extensions"

definition is_valid :: "string set \<Rightarrow> string \<Rightarrow> error + bool" where
  "is_valid seen_urls u =
     (case urlparse u of
        Inl e \<Rightarrow> Inl e
      | Inr parsed \<Rightarrow>
          if scheme parsed \<notin> {''http'', ''https''} then Inr False
          else
            let hostname = lower (netloc parsed);
                is_allowed = list_ex (\<lambda>domain. endswith hostname domain \<or> hostname = tl domain)
                               allowed_domains
            in if \<not> is_allowed then Inr False
               else if u \<in> seen_urls then Inr False
               else if low_value_path (lower (path parsed)) then Inr False
               else Inr True)"

text \<open>
  A response as the callback gets it. The HTML parser is outside the repository: the
  text of the page (scripts and styles removed) and the \<open>href\<close> values of its anchors
  are fields of the raw response. The field \<open>raw\<close> is \<open>resp.raw_response\<close>, \<open>None\<close> when
  the response has no body. \<open>urljoin\<close> is the standard library's; it is a parameter of
  the callback.
\<close>

record raw_response =
  raw_url :: string
  headers :: "string \<rightharpoonup> string"
  page_text :: string
  hrefs :: "string list"

record response =
  resp_url :: string
  status :: int
  raw :: "raw_response option"

text \<open>The state of the module: the \<open>seen\<close> set and the \<open>analytics\<close> object.\<close>

record crawler =
  seen :: "string set"
  analytics :: Analytics

text \<open>The loop over the anchors: join, defragment, append; an exception ends it.\<close>

fun collect_links ::
  "(string \<Rightarrow> string \<Rightarrow> error + string) \<Rightarrow> string \<Rightarrow> string list \<Rightarrow> error + string list" where
  "collect_links urljoin base [] = Inr []"
| "collect_links urljoin base (href # rest) =
     (case urljoin base href of
        Inl e \<Rightarrow> Inl e
      | Inr joined \<Rightarrow>
          (case urldefrag joined of
             Inl e \<Rightarrow> Inl e
           | Inr (defragged, _) \<Rightarrow>
               (case collect_links urljoin base rest of
                  Inl e \<Rightarrow> Inl e
                | Inr links \<Rightarrow> Inr (defragged # links))))"

definition extract_next_links ::
  "(string \<Rightarrow> string \<Rightarrow> error + string) \<Rightarrow> (string fset \<Rightarrow> string list) \<Rightarrow>
   string \<Rightarrow> response \<Rightarrow> crawler \<Rightarrow> (error + string list) \<times> crawler" where
  "extract_next_links urljoin enum u resp st =
     (let st = st\<lparr>seen := insert u (seen st)\<rparr>
      in if status resp \<noteq> 200 \<or> raw resp = None then (Inr [], st)
         else
           let r = the (raw resp)
           in if \<not> contains ''text/html''
                      (case headers r ''Content-Type'' of None \<Rightarrow> '''' | Some v \<Rightarrow> v)
              then (Inr [], st)
              else
                (case urldefrag (resp_url resp) of
                   Inl e \<Rightarrow> (Inl e, st)
                 | Inr (actual_url, _) \<Rightarrow>
                     (case add_page enum actual_url (page_text r) (analytics st) of
                        (Inl e, a) \<Rightarrow> (Inl e, st\<lparr>analytics := a\<rparr>)
                      | (Inr _, a) \<Rightarrow>
                          (collect_links urljoin (raw_url r) (hrefs r), st\<lparr>analytics := a\<rparr>))))"

text \<open>The comprehension \<open>[link for link in links if is_valid(link)]\<close>.\<close>

fun valid_links :: "string set \<Rightarrow> string list \<Rightarrow> error + string list" where
  "valid_links seen_urls [] = Inr []"
| "valid_links seen_urls (link # links) =
     (case is_valid seen_urls link of
        Inl e \<Rightarrow> Inl e
      | Inr ok \<Rightarrow>
          (case valid_links seen_urls links of
             Inl e \<Rightarrow> Inl e
           | Inr rest \<Rightarrow> Inr (if ok then link # rest else rest)))"

definition scraper ::
  "(string \<Rightarrow> string \<Rightarrow> error + string) \<Rightarrow> (string fset \<Rightarrow> string list) \<Rightarrow>
   string \<Rightarrow> response \<Rightarrow> crawler \<Rightarrow> (error + string list) \<times> crawler" where
  "scraper urljoin enum u resp st =
     (case extract_next_links urljoin enum u resp st of
        (Inl e, st') \<Rightarrow> (Inl e, st')
      | (Inr links, st') \<Rightarrow> (valid_links (seen st') links, st'))"

text \<open>A run of callbacks on the module's state, whatever each callback's outcome.\<close>

definition crawl ::
  "(string \<Rightarrow> string \<Rightarrow> error + string) \<Rightarrow> (string fset \<Rightarrow> string list) \<Rightarrow>
   (string \<times> response) list \<Rightarrow> crawler \<Rightarrow> crawler" where
  "crawl urljoin enum calls st = foldl (\<lambda>s (u, resp). snd (scraper urljoin enum u resp s)) st calls"

definition initial :: crawler where
  "initial = \<lparr>seen = {}, analytics = init None\<rparr>"

section \<open>Properties of tokenisation\<close>

lemma token_char_is_word: "is_token_char c \<Longrightarrow> is_word_char c"
  by (auto simp: is_token_char_def is_word_char_def)

lemma try_len_below:
  "k < length (takeWhile is_token_char s) \<Longrightarrow> try_len s k = None"
proof (induction k)
  case 0
  show ?case by simp
next
  case (Suc k)
  let ?n = "length (takeWhile is_token_char s)"
  have a: "is_token_char (s ! k)" using Suc.prems
    by (metis Suc_lessD takeWhile_nth nth_mem set_takeWhileD)
  have b: "is_token_char (s ! Suc k)" using Suc.prems
    by (metis nth_mem set_takeWhileD takeWhile_nth)
  have len: "Suc k < length s" using Suc.prems length_takeWhile_le[of is_token_char s] by simp
  then have "drop (Suc k) s = s ! Suc k # drop (Suc (Suc k)) s"
    by (simp add: Cons_nth_drop_Suc)
  then have "\<not> word_boundary (Some (s ! k)) (drop (Suc k) s)"
    using a b by (simp add: word_boundary_def token_char_is_word)
  then show ?case using Suc by simp
qed

lemma try_len_run:
  "try_len s (length (takeWhile is_token_char s)) =
     (if takeWhile is_token_char s \<noteq> [] \<and>
         (case dropWhile is_token_char s of [] \<Rightarrow> True | d # _ \<Rightarrow> \<not> is_word_char d)
      then Some (length (takeWhile is_token_char s)) else None)"
proof (cases "length (takeWhile is_token_char s)")
  case 0
  then show ?thesis by simp
next
  case (Suc k)
  have klt: "k < length (takeWhile is_token_char s)" using Suc by simp
  have a: "is_token_char (s ! k)"
    by (metis klt nth_mem set_takeWhileD takeWhile_nth)
  have d: "drop (Suc k) s = dropWhile is_token_char s"
    using Suc by (metis dropWhile_eq_drop)
  have ne: "takeWhile is_token_char s \<noteq> []" using Suc by auto
  have wb: "word_boundary (Some (s ! k)) r = (case r of [] \<Rightarrow> True | d # _ \<Rightarrow> \<not> is_word_char d)" for r
    using a by (simp add: word_boundary_def token_char_is_word split: list.splits)
  have "try_len s (Suc k) =
      (if word_boundary (Some (s ! k)) (dropWhile is_token_char s) then Some (Suc k) else None)"
    using try_len_below[OF klt] d by simp
  then show ?thesis using ne by (simp only: Suc[symmetric] wb) simp
qed


lemma match_at_eq:
  "match_at prev s =
     (if (case prev of None \<Rightarrow> False | Some c \<Rightarrow> is_word_char c)
           \<noteq> (case s of [] \<Rightarrow> False | c # _ \<Rightarrow> is_word_char c)
         \<and> takeWhile is_token_char s \<noteq> []
         \<and> (case dropWhile is_token_char s of [] \<Rightarrow> True | d # _ \<Rightarrow> \<not> is_word_char d)
      then Some (length (takeWhile is_token_char s)) else None)"
  unfolding match_at_def try_len_run by (simp add: word_boundary_def)

lemma runs_not_head: "\<not> p x \<Longrightarrow> runs p (x # xs) = runs p xs"
  by simp

lemma dropWhile_idem: "dropWhile p (dropWhile p xs) = dropWhile p xs"
  by (induction xs) auto

lemma takeWhile_token_word:
  assumes "case dropWhile is_token_char s of [] \<Rightarrow> True | d # _ \<Rightarrow> \<not> is_word_char d"
  shows "takeWhile is_word_char s = takeWhile is_token_char s"
    and "dropWhile is_word_char s = dropWhile is_token_char s"
  using assms by (induction s) (auto simp: token_char_is_word split: if_splits)

lemma findall_runs_gen:
  "findall prev s =
     filter (list_all is_token_char)
       (runs is_word_char (if prev_word prev then dropWhile is_word_char s else s))"
proof (induction prev s rule: findall.induct)
  case (1 prev)
  show ?case by simp
next
  case (2 prev c cs)
  let ?s = "c # cs"
  show ?case
  proof (cases "match_at prev ?s")
    case None
    note IH = "2.IH"(1)[OF None]
    show ?thesis
    proof (cases "is_word_char c")
      case True
      note wc = this
      show ?thesis
      proof (cases "prev_word prev")
        case True
        then show ?thesis using None IH wc by (simp add: prev_word_def)
      next
        case False
        have bad: "\<not> list_all is_token_char (c # takeWhile is_word_char cs)"
        proof (cases "is_token_char c")
          case False then show ?thesis by simp
        next
          case True
          with None False wc obtain d ds where
            d: "dropWhile is_token_char ?s = d # ds" "is_word_char d"
            by (auto simp: match_at_eq prev_word_def split: list.splits if_splits)
          have nd: "\<not> is_token_char d" using d(1) by (metis hd_dropWhile list.sel(1) list.distinct(1))
          have "?s = takeWhile is_token_char ?s @ d # ds" using d(1) by (metis takeWhile_dropWhile_id)
          moreover have "\<forall>x\<in>set (takeWhile is_token_char ?s). is_word_char x"
            by (auto dest: set_takeWhileD token_char_is_word)
          ultimately have "takeWhile is_word_char ?s = takeWhile is_token_char ?s @ takeWhile is_word_char (d # ds)"
            by (metis takeWhile_append2)
          then have "d \<in> set (takeWhile is_word_char ?s)" using d(2) by simp
          then show ?thesis using nd wc by (auto simp: list_all_iff)
        qed
        show ?thesis using None IH wc False bad by (simp add: prev_word_def)
      qed
    next
      case False
      then show ?thesis using None IH by (simp add: prev_word_def)
    qed
  next
    case (Some k)
    note IH = "2.IH"(2)[OF Some]
    from Some have pw: "prev_word prev \<noteq> is_word_char c"
      and ne: "takeWhile is_token_char ?s \<noteq> []"
      and nx: "case dropWhile is_token_char ?s of [] \<Rightarrow> True | d # _ \<Rightarrow> \<not> is_word_char d"
      and k: "k = length (takeWhile is_token_char ?s)"
      by (auto simp: match_at_eq prev_word_def split: if_splits)
    from ne have tc: "is_token_char c" by (auto split: if_splits)
    then have wc: "is_word_char c" by (rule token_char_is_word)
    with pw have npw: "\<not> prev_word prev" by simp
    have tk: "take k ?s = takeWhile is_token_char ?s" unfolding k by (metis takeWhile_eq_take)
    have dk: "drop k ?s = dropWhile is_token_char ?s" unfolding k by (metis dropWhile_eq_drop)
    have kpos: "0 < k" using k ne by simp
    have "?s ! (k - 1) \<in> set (takeWhile is_token_char ?s)"
      using kpos k by (metis diff_less nth_mem takeWhile_nth zero_less_one)
    then have pk: "prev_word (Some (?s ! (k - 1)))"
      by (auto simp: prev_word_def dest!: set_takeWhileD intro: token_char_is_word)
    have tw: "takeWhile is_word_char ?s = takeWhile is_token_char ?s"
      and dw: "dropWhile is_word_char ?s = dropWhile is_token_char ?s"
      using takeWhile_token_word[OF nx] by auto
    have r: "runs is_word_char ?s = takeWhile is_token_char ?s # runs is_word_char (dropWhile is_token_char ?s)"
      using wc tw dw by simp
    have all: "list_all is_token_char (takeWhile is_token_char ?s)"
      by (auto simp: list_all_iff dest: set_takeWhileD)
    have "findall prev ?s = take k ?s # findall (Some (?s ! (k - 1))) (drop k ?s)"
      using Some by simp
    also have "\<dots> = takeWhile is_token_char ?s #
        filter (list_all is_token_char) (runs is_word_char (dropWhile is_word_char (dropWhile is_token_char ?s)))"
      using IH pk by (simp only: tk dk if_True)
    also have "dropWhile is_word_char (dropWhile is_token_char ?s) = dropWhile is_token_char ?s"
      using dw dropWhile_idem[of is_word_char ?s] by simp
    finally show ?thesis using npw r all by (simp del: runs.simps findall.simps takeWhile.simps dropWhile.simps)
  qed
qed


lemma runs_elems: "r \<in> set (runs p s) \<Longrightarrow> r \<noteq> [] \<and> list_all p r"
proof (induction p s arbitrary: r rule: runs.induct)
  case (1 p)
  then show ?case by simp
next
  case (2 p x xs)
  show ?case
  proof (cases "p x")
    case True
    with "2.prems" have "r = x # takeWhile p xs \<or> r \<in> set (runs p (dropWhile p xs))" by simp
    then show ?thesis
    proof
      assume "r = x # takeWhile p xs"
      then show ?thesis using True by (auto simp: list_all_iff dest: set_takeWhileD)
    next
      assume "r \<in> set (runs p (dropWhile p xs))"
      then show ?thesis using "2.IH"(1)[OF True] by simp
    qed
  next
    case False
    with "2.prems" have "r \<in> set (runs p xs)" by simp
    then show ?thesis using "2.IH"(2)[OF False] by simp
  qed
qed

lemma runs_cong_set: "(\<And>x. x \<in> set s \<Longrightarrow> p x = q x) \<Longrightarrow> runs p s = runs q s"
proof (induction p s rule: runs.induct)
  case (1 p)
  show ?case by simp
next
  case (2 p x xs)
  have tw: "takeWhile p xs = takeWhile q xs" using "2.prems" by (auto intro: takeWhile_cong)
  have dw: "dropWhile p xs = dropWhile q xs" using "2.prems" by (auto intro: dropWhile_cong)
  have sub: "set (dropWhile q xs) \<subseteq> set xs" by (auto dest: set_dropWhileD)
  show ?case
  proof (cases "p x")
    case True
    then have "q x" using "2.prems" by simp
    moreover have "runs p (dropWhile p xs) = runs q (dropWhile p xs)"
      using "2.IH"(1)[OF True] "2.prems" sub dw by auto
    ultimately show ?thesis using True tw dw by simp
  next
    case False
    then have "\<not> q x" using "2.prems" by simp
    then show ?thesis using False "2.IH"(2)[OF False] "2.prems" by simp
  qed
qed

lemma code_char_of: "n < 256 \<Longrightarrow> code (char_of n) = n"
  by (simp add: code_def)

lemma code_lower_char:
  "code (lower_char c) = (if is_upper c then code c + 32 else code c)"
  by (auto simp: lower_char_def is_upper_def intro!: code_char_of)

lemma lower_alnum: "c \<in> set (lower s) \<Longrightarrow> is_ascii_alnum c = is_token_char c"
  by (auto simp: lower_def is_ascii_alnum_def is_token_char_def code_lower_char is_upper_def split: if_splits)

text \<open>
  What the pattern finds. The tokens are, in order, the maximal runs of word characters
  (letters, digits, underscore) that consist of \<open>a-z\<close> and \<open>0-9\<close> only; none is empty.
  A run of letters and digits that touches an underscore (or a letter or digit that is
  not ASCII) is therefore lost. Only for a text without such characters are the tokens
  the maximal runs of ASCII letters and digits.
\<close>

lemma tokenize_eq_word_runs:
  "tokenize text = filter (list_all is_token_char) (runs is_word_char (lower text))
   \<and> (\<forall>t \<in> set (tokenize text). t \<noteq> [] \<and> list_all is_token_char t)
   \<and> ((\<forall>c \<in> set (lower text). is_word_char c \<longrightarrow> is_token_char c)
        \<longrightarrow> tokenize text = spec_tokens text)"
proof -
  have eq: "tokenize text = filter (list_all is_token_char) (runs is_word_char (lower text))"
    by (simp add: tokenize_def findall_runs_gen prev_word_def)
  have props: "\<forall>t \<in> set (tokenize text). t \<noteq> [] \<and> list_all is_token_char t"
    unfolding eq by (auto dest: runs_elems)
  have same: "tokenize text = spec_tokens text"
    if h: "\<forall>c \<in> set (lower text). is_word_char c \<longrightarrow> is_token_char c"
  proof -
    have "runs is_word_char (lower text) = runs is_token_char (lower text)"
      using h by (intro runs_cong_set) (auto intro: token_char_is_word)
    moreover have "runs is_ascii_alnum (lower text) = runs is_token_char (lower text)"
      by (intro runs_cong_set) (rule lower_alnum)
    moreover have "filter (list_all is_token_char) (runs is_token_char (lower text))
        = runs is_token_char (lower text)"
      by (auto intro!: filter_True dest: runs_elems)
    ultimately show ?thesis by (simp add: eq spec_tokens_def)
  qed
  show ?thesis using eq props same by blast
qed

text \<open>
  Claim C3 at the texts \<open>a_b\<close> and \<open>snake_case_name 42\<close>. The claim (and the comment
  in the code: words are alphanumeric sequences) says that every maximal run of letters
  and digits is a token. The code loses the runs next to an underscore: the underscore
  is a word character, so \<open>\b\<close> holds neither before it nor behind it.
\<close>

theorem tokenize_drops_underscore_runs:
  "tokenize ''a_b'' = [] \<and> spec_tokens ''a_b'' = [''a'', ''b'']
   \<and> tokenize ''snake_case_name 42'' = [''42'']
   \<and> spec_tokens ''snake_case_name 42'' = [''snake'', ''case'', ''name'', ''42'']"
  by code_simp

section \<open>Properties of URL parsing\<close>











































section \<open>Properties of the analytics aggregator\<close>

lemma add_page_longest_page:
  "longest_page (data (snd (add_page enum u t a))) =
     (if int (length (tokenize t)) > word_count (longest_page (data a))
      then \<lparr>url = u, word_count = int (length (tokenize t))\<rparr>
      else longest_page (data a))"
  by (simp add: add_page_def Let_def save_def split: sum.splits)

lemma add_page_word_frequencies:
  "word_frequencies (data (snd (add_page enum u t a))) =
     count_words (word_frequencies (data a)) (tokenize t)"
  by (simp add: add_page_def Let_def save_def split: sum.splits)

lemma count_words_append:
  "count_words freq (xs @ ys) = count_words (count_words freq xs) ys"
  by (simp add: count_words_def)

lemma add_pages_snoc:
  "add_pages enum (pages @ [(u, t)]) a = snd (add_page enum u t (add_pages enum pages a))"
  by (simp add: add_pages_def)

lemma add_pages_word_frequencies:
  "word_frequencies (data (add_pages enum pages a)) =
     count_words (word_frequencies (data a)) (concat (map (\<lambda>(u, t). tokenize t) pages))"
proof (induction pages rule: rev_induct)
  case Nil
  show ?case by (simp add: add_pages_def count_words_def)
next
  case (snoc p pages)
  obtain u t where p: "p = (u, t)" by (cases p)
  show ?case
    unfolding p add_pages_snoc add_page_word_frequencies snoc.IH
    by (simp add: count_words_append)
qed

lemma sum_update:
  "sum_list (map snd (AList.update k (dict_get freq k 0 + 1) freq)) = sum_list (map snd freq) + (1::int)"
proof (induction freq)
  case Nil
  show ?case by (simp add: dict_get_def)
next
  case (Cons p freq)
  obtain k' v where p: "p = (k', v)" by (cases p)
  show ?case
  proof (cases "k' = k")
    case True
    then show ?thesis by (simp add: p dict_get_def)
  next
    case False
    then have "dict_get (p # freq) k 0 = dict_get freq k 0" by (simp add: p dict_get_def)
    then show ?thesis using False Cons.IH by (simp add: p)
  qed
qed

lemma count_words_sum:
  "sum_list (map snd (count_words freq ws)) = sum_list (map snd freq) + int (length ws)"
proof (induction ws rule: rev_induct)
  case Nil
  show ?case by (simp add: count_words_def)
next
  case (snoc w ws)
  have "count_words freq (ws @ [w]) =
      AList.update w (dict_get (count_words freq ws) w 0 + 1) (count_words freq ws)"
    by (simp add: count_words_def dict_set_def)
  then show ?case using snoc.IH by (simp add: sum_update)
qed

lemma dict_get_update:
  "dict_get (AList.update w v freq) x d = (if x = w then v else dict_get freq x d)"
  by (simp add: dict_get_def update_conv')

lemma count_words_get:
  "dict_get (count_words freq ws) x 0 = dict_get freq x 0 + int (count_list ws x)"
proof (induction ws arbitrary: x rule: rev_induct)
  case Nil
  show ?case by (simp add: count_words_def)
next
  case (snoc w ws)
  have e: "count_words freq (ws @ [w]) =
      AList.update w (dict_get (count_words freq ws) w 0 + 1) (count_words freq ws)"
    by (simp add: count_words_def dict_set_def)
  show ?case unfolding e dict_get_update by (simp add: snoc.IH count_list_append)
qed

lemma update_positive:
  assumes "\<And>k c. (k, c) \<in> set freq \<Longrightarrow> 1 \<le> c" "(x, c) \<in> set (AList.update w (dict_get freq w 0 + 1) freq)"
  shows "(1::int) \<le> c"
proof -
  have nonneg: "0 \<le> dict_get freq w 0"
  proof (cases "map_of freq w")
    case None
    then show ?thesis by (simp add: dict_get_def)
  next
    case (Some v)
    then have "(w, v) \<in> set freq" by (rule map_of_SomeD)
    then show ?thesis using assms(1) Some by (fastforce simp: dict_get_def)
  qed
  have "set (AList.update w v freq) \<subseteq> insert (w, v) (set freq)" for v
    by (induction freq) auto
  then have "(x, c) = (w, dict_get freq w 0 + 1) \<or> (x, c) \<in> set freq" using assms(2) by blast
  then show ?thesis using nonneg assms(1) by auto
qed

lemma count_words_positive:
  assumes "\<And>k c. (k, c) \<in> set freq \<Longrightarrow> 1 \<le> c" "(x, c) \<in> set (count_words freq ws)"
  shows "(1::int) \<le> c"
  using assms(2)
proof (induction ws arbitrary: x c rule: rev_induct)
  case Nil
  then show ?case using assms(1) by (simp add: count_words_def)
next
  case (snoc w ws)
  have e: "count_words freq (ws @ [w]) =
      AList.update w (dict_get (count_words freq ws) w 0 + 1) (count_words freq ws)"
    by (simp add: count_words_def dict_set_def)
  show ?case by (rule update_positive[OF snoc.IH]) (use snoc.prems e in auto)
qed

text \<open>
  Claim C7. After any sequence of \<open>add_page\<close> calls on a fresh aggregator, the counts in
  \<open>word_frequencies\<close> add up to the number of tokens of all the pages added, and the
  count of each word is the number of its occurrences among those tokens (a word that
  never occurred has no entry, which \<open>get\<close> reads as 0).
\<close>

theorem word_frequencies_total:
  "sum_list (map snd (word_frequencies (data (add_pages enum pages (init None)))))
     = int (length (concat (map (\<lambda>(u, t). tokenize t) pages)))
   \<and> dict_get (word_frequencies (data (add_pages enum pages (init None)))) w 0
     = int (count_list (concat (map (\<lambda>(u, t). tokenize t) pages)) w)"
proof -
  have e: "word_frequencies (data (init None)) = []"
    by (simp add: init_def load_def default_data_def)
  have z: "dict_get ([] :: (string \<times> int) list) w 0 = 0" by (simp add: dict_get_def)
  show ?thesis
    unfolding add_pages_word_frequencies e count_words_sum count_words_get z by simp
qed

text \<open>The theorem for two pages with four tokens, two of them \<open>cat\<close>.\<close>

theorem word_frequencies_total_witness:
  "sum_list (map snd (word_frequencies (data (add_pages sorted_list_of_fset
       [(''http://a.ics.uci.edu/x'', ''cat dog cat''), (''http://b.ics.uci.edu/y'', ''Dog'')]
       (init None))))) = 4
   \<and> dict_get (word_frequencies (data (add_pages sorted_list_of_fset
       [(''http://a.ics.uci.edu/x'', ''cat dog cat''), (''http://b.ics.uci.edu/y'', ''Dog'')]
       (init None)))) ''cat'' 0 = 2"
proof -
  let ?pages = "[(''http://a.ics.uci.edu/x'', ''cat dog cat''), (''http://b.ics.uci.edu/y'', ''Dog'')]"
  have t: "concat (map (\<lambda>(u, t). tokenize t) ?pages) = [''cat'', ''dog'', ''cat'', ''dog'']"
    by code_simp
  show ?thesis
    using word_frequencies_total[of sorted_list_of_fset ?pages "''cat''"] unfolding t by simp
qed

lemma most_common_subset: "set (most_common n items) \<subseteq> set items"
proof (cases n)
  case None
  then show ?thesis by (simp add: most_common_def)
next
  case (Some k)
  have "set (take (nat k) (sort_key (\<lambda>(w, c). - c) items)) \<subseteq> set (sort_key (\<lambda>(w, c). - c) items)"
    by (rule set_take_subset)
  then show ?thesis using Some by (simp add: most_common_def)
qed

lemma get_top_words_subset:
  "set (get_top_words n stop_words a) \<subseteq> set (word_frequencies (data a))"
proof -
  have "set (get_top_words n stop_words a) \<subseteq>
      set (filter (\<lambda>(w, c). w \<notin> (case stop_words of None \<Rightarrow> {} | Some s \<Rightarrow> s))
             (word_frequencies (data a)))"
    unfolding get_top_words_def Let_def by (rule most_common_subset)
  also have "\<dots> \<subseteq> set (word_frequencies (data a))" by (rule filter_is_subset)
  finally show ?thesis .
qed

text \<open>
  Claim C10. After any sequence of \<open>add_page\<close> calls on a fresh aggregator every count
  in \<open>word_frequencies\<close> is at least 1, and so is every count \<open>get_top_words\<close> returns.
\<close>

theorem word_counts_positive:
  "(\<forall>(w, c) \<in> set (word_frequencies (data (add_pages enum pages (init None)))). 1 \<le> c)
   \<and> (\<forall>(w, c) \<in> set (get_top_words n stop_words (add_pages enum pages (init None))). 1 \<le> c)"
proof -
  let ?freq = "word_frequencies (data (add_pages enum pages (init None)))"
  have e: "?freq = count_words [] (concat (map (\<lambda>(u, t). tokenize t) pages))"
    by (simp add: add_pages_word_frequencies init_def load_def default_data_def)
  have pos: "1 \<le> c" if "(w, c) \<in> set ?freq" for w c
  proof (rule count_words_positive)
    show "(w, c) \<in> set (count_words [] (concat (map (\<lambda>(u, t). tokenize t) pages)))"
      using that unfolding e .
  qed simp
  have 1: "\<forall>(w, c) \<in> set ?freq. 1 \<le> c" using pos by blast
  have 2: "\<forall>(w, c) \<in> set (get_top_words n stop_words (add_pages enum pages (init None))). 1 \<le> c"
    using pos get_top_words_subset[of n stop_words "add_pages enum pages (init None)"] by blast
  show ?thesis using 1 2 by (rule conjI)
qed

text \<open>The theorem at the top word of one page, with \<open>cat\<close> a stop word.\<close>

theorem word_counts_positive_witness:
  "get_top_words (Some 1) (Some {''cat''})
      (add_pages sorted_list_of_fset [(''http://a.ics.uci.edu/x'', ''cat dog cat'')] (init None))
     = [(''dog'', 1)]
   \<and> (1::int) \<le> snd (hd (get_top_words (Some 1) (Some {''cat''})
      (add_pages sorted_list_of_fset [(''http://a.ics.uci.edu/x'', ''cat dog cat'')] (init None))))"
proof -
  let ?a = "add_pages sorted_list_of_fset [(''http://a.ics.uci.edu/x'', ''cat dog cat'')] (init None)"
  let ?top = "get_top_words (Some 1) (Some {''cat''}) ?a"
  have "count_words [] (concat (map (\<lambda>(u, t). tokenize t) [(''http://a.ics.uci.edu/x'', ''cat dog cat'')]))
      = [(''cat'', 2), (''dog'', 1)]"
    by code_simp
  then have f: "word_frequencies (data ?a) = [(''cat'', 2), (''dog'', 1)]"
    by (simp only: add_pages_word_frequencies init_def load_def default_data_def
        option.case analytics_data.simps Analytics.simps)
  have e: "?top = [(''dog'', 1)]"
    unfolding get_top_words_def f by code_simp
  then have "hd ?top \<in> set ?top" by simp
  with word_counts_positive[of sorted_list_of_fset
      "[(''http://a.ics.uci.edu/x'', ''cat dog cat'')]" "Some 1" "Some {''cat''}"]
  have "1 \<le> snd (hd ?top)" by (auto simp: case_prod_beta)
  with e show ?thesis by blast
qed

lemma find_append:
  "List.find P (xs @ ys) = (case List.find P xs of None \<Rightarrow> List.find P ys | Some x \<Rightarrow> Some x)"
  by (induction xs) auto

lemma add_pages_word_count:
  fixes pages :: "(string \<times> string) list"
  defines "wc \<equiv> \<lambda>(u :: string, t). int (length (tokenize t))"
  shows "word_count (longest_page (data (add_pages enum pages (init None))))
     = Max (insert 0 (wc ` set pages))"
proof (induction pages rule: rev_induct)
  case Nil
  show ?case by (simp add: add_pages_def init_def load_def default_data_def)
next
  case (snoc p pages)
  obtain u t where p: "p = (u, t)" by (cases p)
  have fin: "finite (insert 0 (wc ` set pages))" by simp
  have m': "Max (insert 0 (wc ` set (pages @ [p]))) = max (wc p) (Max (insert 0 (wc ` set pages)))"
    using Max_insert[OF fin, of "wc p"] by (simp add: insert_commute)
  have "word_count (longest_page (data (add_pages enum (pages @ [p]) (init None))))
      = max (wc p) (word_count (longest_page (data (add_pages enum pages (init None)))))"
    unfolding p add_pages_snoc add_page_longest_page by (simp add: wc_def)
  then show ?case unfolding m' snoc.IH .
qed

lemma add_pages_longest_page:
  fixes pages :: "(string \<times> string) list"
  defines "wc \<equiv> \<lambda>(u :: string, t). int (length (tokenize t))"
  defines "m \<equiv> Max (insert 0 (wc ` set pages))"
  shows "longest_page (data (add_pages enum pages (init None))) =
     (case (if m = 0 then None else List.find (\<lambda>p. wc p = m) pages) of
        None \<Rightarrow> \<lparr>url = '''', word_count = 0\<rparr>
      | Some (u, t) \<Rightarrow> \<lparr>url = u, word_count = m\<rparr>)"
  unfolding m_def
proof (induction pages rule: rev_induct)
  case Nil
  show ?case by (simp add: add_pages_def init_def load_def default_data_def)
next
  case (snoc p pages)
  obtain u t where p: "p = (u, t)" by (cases p)
  let ?m = "Max (insert 0 (wc ` set pages))"
  let ?lp = "longest_page (data (add_pages enum pages (init None)))"
  have fin: "finite (insert 0 (wc ` set pages))" by simp
  have m_in: "?m \<in> insert 0 (wc ` set pages)" by (rule Max_in[OF fin]) simp
  have m_ge: "x \<le> ?m" if "x \<in> insert 0 (wc ` set pages)" for x
    using that by (intro Max_ge[OF fin])
  have m': "Max (insert 0 (wc ` set (pages @ [p]))) = max (wc p) ?m"
    using Max_insert[OF fin, of "wc p"] by (simp add: insert_commute)
  have found: "List.find (\<lambda>q. wc q = ?m) pages \<noteq> None" if "?m \<noteq> 0"
  proof -
    from m_in that have "?m \<in> wc ` set pages" by simp
    then obtain q where "q \<in> set pages" "wc q = ?m" by (metis imageE)
    then show ?thesis unfolding find_None_iff by blast
  qed
  have cnt: "word_count ?lp = ?m"
    unfolding wc_def by (rule add_pages_word_count)
  have step: "longest_page (data (add_pages enum (pages @ [p]) (init None))) =
      (if ?m < wc p then \<lparr>url = u, word_count = wc p\<rparr> else ?lp)"
    unfolding p add_pages_snoc add_page_longest_page cnt by (simp add: wc_def)
  show ?case
  proof (cases "?m < wc p")
    case True
    have "0 \<le> ?m" by (rule m_ge) simp
    then have nz: "max (wc p) ?m \<noteq> 0" and mx: "max (wc p) ?m = wc p" using True by auto
    have "wc q \<noteq> wc p" if "q \<in> set pages" for q
      using m_ge[of "wc q"] that True by auto
    then have "List.find (\<lambda>q. wc q = wc p) pages = None" by (auto simp: find_None_iff)
    then have "List.find (\<lambda>q. wc q = wc p) (pages @ [p]) = Some p" by (simp add: find_append)
    then show ?thesis unfolding step m' using True nz mx by (simp add: p)
  next
    case False
    then have "wc p \<le> ?m" by (rule leI)
    then have mx: "max (wc p) ?m = ?m" by (rule max_absorb2)
    have s': "longest_page (data (add_pages enum (pages @ [p]) (init None))) = ?lp"
      unfolding step by (rule if_not_P[OF False])
    show ?thesis
    proof (cases "?m = 0")
      case True
      then show ?thesis unfolding s' m' mx using snoc.IH by simp
    next
      case nz: False
      with found obtain q where q: "List.find (\<lambda>q. wc q = ?m) pages = Some q" by auto
      then have q': "List.find (\<lambda>q. wc q = ?m) (pages @ [p]) = Some q" by (simp add: find_append)
      show ?thesis unfolding s' m' mx q' using snoc.IH nz q by simp
    qed
  qed
qed

text \<open>
  Claim C6. Over any sequence of \<open>add_page\<close> calls on a fresh aggregator the longest
  page's word count is the largest token count of the pages added so far (0 for none); a
  call never lowers it; a call replaces the record only when the new page has strictly
  more tokens, so the record is the first page that reached the largest count.
\<close>

theorem longest_page_max:
  "word_count (longest_page (data (add_pages enum pages (init None))))
     = Max (insert 0 ((\<lambda>(u, t). int (length (tokenize t))) ` set pages))
   \<and> word_count (longest_page (data a)) \<le> word_count (longest_page (data (snd (add_page enum u t a))))
   \<and> longest_page (data (snd (add_page enum u t a)))
       = (if word_count (longest_page (data a)) < int (length (tokenize t))
          then \<lparr>url = u, word_count = int (length (tokenize t))\<rparr> else longest_page (data a))
   \<and> longest_page (data (add_pages enum pages (init None)))
       = (let m = Max (insert 0 ((\<lambda>(u, t). int (length (tokenize t))) ` set pages))
          in case (if m = 0 then None
                   else List.find (\<lambda>(u, t). int (length (tokenize t)) = m) pages) of
               None \<Rightarrow> \<lparr>url = '''', word_count = 0\<rparr>
             | Some (u, t) \<Rightarrow> \<lparr>url = u, word_count = m\<rparr>)"
proof -
  let ?wc = "\<lambda>(u :: string, t). int (length (tokenize t))"
  let ?m = "Max (insert 0 (?wc ` set pages))"
  have 4: "longest_page (data (add_pages enum pages (init None)))
       = (case (if ?m = 0 then None else List.find (\<lambda>p. ?wc p = ?m) pages) of
               None \<Rightarrow> \<lparr>url = '''', word_count = 0\<rparr>
             | Some (u, t) \<Rightarrow> \<lparr>url = u, word_count = ?m\<rparr>)"
    by (rule add_pages_longest_page)
  have 1: "word_count (longest_page (data (add_pages enum pages (init None)))) = ?m"
    by (rule add_pages_word_count)
  have 3: "longest_page (data (snd (add_page enum u t a)))
       = (if word_count (longest_page (data a)) < int (length (tokenize t))
          then \<lparr>url = u, word_count = int (length (tokenize t))\<rparr> else longest_page (data a))"
    by (simp add: add_page_longest_page)
  have 2: "word_count (longest_page (data a)) \<le> word_count (longest_page (data (snd (add_page enum u t a))))"
    unfolding 3 by simp
  have e: "(\<lambda>p. ?wc p = ?m) = (\<lambda>(u, t). int (length (tokenize t)) = ?m)" by auto
  show ?thesis using 1 2 3 4 unfolding e Let_def by blast
qed

text \<open>
  The theorem for three pages of 2, 3 and 3 tokens: the second page, the first with 3
  tokens, is the longest.
\<close>

theorem longest_page_max_witness:
  "longest_page (data (add_pages sorted_list_of_fset
      [(''http://a.ics.uci.edu/1'', ''one two''), (''http://a.ics.uci.edu/2'', ''cat dog cat''),
       (''http://a.ics.uci.edu/3'', ''x y z'')] (init None)))
     = \<lparr>url = ''http://a.ics.uci.edu/2'', word_count = 3\<rparr>"
proof -
  let ?pages = "[(''http://a.ics.uci.edu/1'', ''one two''), (''http://a.ics.uci.edu/2'', ''cat dog cat''),
       (''http://a.ics.uci.edu/3'', ''x y z'')]"
  have t: "tokenize ''one two'' = [''one'', ''two'']" "tokenize ''cat dog cat'' = [''cat'', ''dog'', ''cat'']"
    "tokenize ''x y z'' = [''x'', ''y'', ''z'']"
    by code_simp+
  have "longest_page (data (add_pages sorted_list_of_fset ?pages (init None)))
       = (let m = Max (insert 0 ((\<lambda>(u, t). int (length (tokenize t))) ` set ?pages))
          in case (if m = 0 then None
                   else List.find (\<lambda>(u, t). int (length (tokenize t)) = m) ?pages) of
               None \<Rightarrow> \<lparr>url = '''', word_count = 0\<rparr>
             | Some (u, t) \<Rightarrow> \<lparr>url = u, word_count = m\<rparr>)"
    using longest_page_max[of sorted_list_of_fset ?pages] by blast
  then show ?thesis by (simp add: t)
qed

lemma as_set_as_list:
  "(\<forall>S. fset_of_list (enum S) = S) \<Longrightarrow> fset_of_list (as_list enum v) = as_set v"
  by (cases v) auto

lemma save_load:
  assumes "\<forall>S. fset_of_list (enum S) = S"
  shows "abstract_state (data (init (save_file (save enum self)))) = abstract_state (data self)"
  using as_set_as_list[OF assms]
  by (simp add: abstract_state_def save_def init_def load_def Let_def comp_def case_prod_beta)

lemma add_page_outcome:
  "fst (add_page enum u t self) = (case urlparse u of Inl e \<Rightarrow> Inl e | Inr parsed \<Rightarrow> Inr ())"
  by (simp add: add_page_def Let_def split: sum.splits)

lemma add_page_saved:
  assumes "fst (add_page enum u t self) = Inr ()"
  shows "save_file (snd (add_page enum u t self)) = save_file (save enum (snd (add_page enum u t self)))"
  using assms by (auto simp: add_page_def Let_def save_def split: sum.splits)

text \<open>
  Claim C8. Saving a state and loading it in a new aggregator gives the same abstract
  state (the set of unique pages, the longest page, the word frequencies, the set of
  pages of each subdomain), whatever the order in which the sets are written as lists;
  and the file a successful \<open>add_page\<close> leaves behind loads to the state it left in
  memory.
\<close>

theorem save_load_roundtrip:
  assumes "\<forall>S. fset_of_list (enum S) = S"
  shows "abstract_state (data (init (save_file (save enum self)))) = abstract_state (data self)
    \<and> (fst (add_page enum u t self) = Inr () \<longrightarrow>
         abstract_state (data (init (save_file (snd (add_page enum u t self)))))
           = abstract_state (data (snd (add_page enum u t self))))"
  using save_load[OF assms] add_page_saved by simp

text \<open>The theorem for the fresh aggregator and one page, sets listed in sorted order.\<close>

theorem save_load_roundtrip_witness:
  "abstract_state (data (init (save_file (save sorted_list_of_fset (init None)))))
     = abstract_state (data (init None))
   \<and> abstract_state (data (init (save_file (snd (add_page sorted_list_of_fset
         ''http://a.ics.uci.edu/x'' ''cat dog cat'' (init None)))))) 
     = abstract_state (data (snd (add_page sorted_list_of_fset
         ''http://a.ics.uci.edu/x'' ''cat dog cat'' (init None))))"
proof -
  have e: "\<forall>S :: string fset. fset_of_list (sorted_list_of_fset S) = S" by simp
  have "urlparse ''http://a.ics.uci.edu/x'' =
      Inr \<lparr>scheme = ''http'', netloc = ''a.ics.uci.edu'', path = ''/x'', params = '''',
           query = '''', fragment = ''''\<rparr>"
    by code_simp
  then have ok: "fst (add_page sorted_list_of_fset ''http://a.ics.uci.edu/x'' ''cat dog cat'' (init None)) = Inr ()"
    by (simp add: add_page_outcome)
  show ?thesis
    using save_load_roundtrip[OF e, of "init None" "''http://a.ics.uci.edu/x''" "''cat dog cat''"] ok
    by blast
qed

text \<open>
  Claim C5 at the page \<open>http://uci.edu.example.com/x\<close>: its host contains \<open>uci.edu\<close> but
  does not end with it, and \<open>add_page\<close> gives it an entry in \<open>subdomains\<close>.
\<close>

theorem add_page_substring_host:
  "map fst (subdomains (data (snd (add_page sorted_list_of_fset
       ''http://uci.edu.example.com/x'' ''hi'' (init None))))) = [''uci.edu.example.com'']
   \<and> \<not> endswith ''uci.edu.example.com'' ''uci.edu''"
  by code_simp

section \<open>Properties of the crawl callback\<close>

lemma is_valid_seen_split:
  "is_valid S u = (case is_valid {} u of Inl e \<Rightarrow> Inl e | Inr b \<Rightarrow> Inr (b \<and> u \<notin> S))"
  by (simp add: is_valid_def Let_def split: sum.splits)

lemma extract_next_links_early:
  assumes "status resp \<noteq> 200 \<or> raw resp = None
     \<or> (\<exists>r. raw resp = Some r
           \<and> \<not> contains ''text/html'' (case headers r ''Content-Type'' of None \<Rightarrow> '''' | Some v \<Rightarrow> v))"
  shows "extract_next_links urljoin enum u resp st = (Inr [], st\<lparr>seen := insert u (seen st)\<rparr>)"
  using assms by (auto simp: extract_next_links_def Let_def)

lemma seen_extract_next_links:
  "seen (snd (extract_next_links urljoin enum u resp st)) = insert u (seen st)"
  by (simp add: extract_next_links_def Let_def split: sum.splits prod.splits)

lemma seen_scraper: "seen (snd (scraper urljoin enum u resp st)) = insert u (seen st)"
proof -
  obtain r st' where e: "extract_next_links urljoin enum u resp st = (r, st')"
    by (cases "extract_next_links urljoin enum u resp st")
  then have "seen st' = insert u (seen st)"
    using seen_extract_next_links[of urljoin enum u resp st] by simp
  then show ?thesis by (simp add: scraper_def e split: sum.splits)
qed

lemma seen_crawl: "seen (crawl urljoin enum calls st) = seen st \<union> fst ` set calls"
proof (induction calls rule: rev_induct)
  case Nil
  show ?case by (simp add: crawl_def)
next
  case (snoc c calls)
  obtain u resp where c: "c = (u, resp)" by (cases c)
  have "crawl urljoin enum (calls @ [c]) st = snd (scraper urljoin enum u resp (crawl urljoin enum calls st))"
    by (simp add: crawl_def c)
  then show ?case using snoc.IH by (simp add: seen_scraper c)
qed

text \<open>
  Claim C9, as the code has it. For a response whose status is not 200 or that has no
  body, and for one whose \<open>Content-Type\<close> header (empty when absent) does not contain
  the text \<open>text/html\<close>, \<open>extract_next_links\<close> returns no links, leaves the analytics
  untouched and adds the requested URL to the \<open>seen\<close> set.
\<close>

theorem extract_next_links_rejects:
  assumes "status resp \<noteq> 200 \<or> raw resp = None
     \<or> (\<exists>r. raw resp = Some r
           \<and> \<not> contains ''text/html'' (case headers r ''Content-Type'' of None \<Rightarrow> '''' | Some v \<Rightarrow> v))"
  shows "fst (extract_next_links urljoin enum u resp st) = Inr []
    \<and> analytics (snd (extract_next_links urljoin enum u resp st)) = analytics st
    \<and> seen (snd (extract_next_links urljoin enum u resp st)) = insert u (seen st)"
  by (simp add: extract_next_links_early[OF assms])

text \<open>
  The theorem for a 404 response without a body and for a PDF served with status 200.
\<close>

theorem extract_next_links_rejects_witness:
  "fst (extract_next_links (\<lambda>b h. Inr h) sorted_list_of_fset ''http://www.ics.uci.edu/gone''
      \<lparr>resp_url = ''http://www.ics.uci.edu/gone'', status = 404, raw = None\<rparr> initial) = Inr []
   \<and> seen (snd (extract_next_links (\<lambda>b h. Inr h) sorted_list_of_fset ''http://www.ics.uci.edu/gone''
      \<lparr>resp_url = ''http://www.ics.uci.edu/gone'', status = 404, raw = None\<rparr> initial))
       = {''http://www.ics.uci.edu/gone''}
   \<and> extract_next_links (\<lambda>b h. Inr h) sorted_list_of_fset ''http://www.ics.uci.edu/doc''
      \<lparr>resp_url = ''http://www.ics.uci.edu/doc'', status = 200,
        raw = Some \<lparr>raw_url = ''http://www.ics.uci.edu/doc'',
                     headers = [''Content-Type'' \<mapsto> ''application/pdf''],
                     page_text = ''a b'', hrefs = [''http://www.ics.uci.edu/a'']\<rparr>\<rparr> initial
       = (Inr [], initial\<lparr>seen := {''http://www.ics.uci.edu/doc''}\<rparr>)"
proof -
  let ?gone = "\<lparr>resp_url = ''http://www.ics.uci.edu/gone'', status = 404, raw = None\<rparr>"
  let ?pdf = "\<lparr>resp_url = ''http://www.ics.uci.edu/doc'', status = 200,
        raw = Some \<lparr>raw_url = ''http://www.ics.uci.edu/doc'',
                     headers = [''Content-Type'' \<mapsto> ''application/pdf''],
                     page_text = ''a b'', hrefs = [''http://www.ics.uci.edu/a'']\<rparr>\<rparr>"
  have g: "status ?gone \<noteq> 200 \<or> raw ?gone = None
     \<or> (\<exists>r. raw ?gone = Some r
           \<and> \<not> contains ''text/html'' (case headers r ''Content-Type'' of None \<Rightarrow> '''' | Some v \<Rightarrow> v))"
    by simp
  have "\<not> contains ''text/html'' ''application/pdf''" by code_simp
  then have p: "status ?pdf \<noteq> 200 \<or> raw ?pdf = None
     \<or> (\<exists>r. raw ?pdf = Some r
           \<and> \<not> contains ''text/html'' (case headers r ''Content-Type'' of None \<Rightarrow> '''' | Some v \<Rightarrow> v))"
    by simp
  have s: "seen initial = {}" by (simp add: initial_def)
  note G = extract_next_links_rejects[OF g, of "\<lambda>b h. Inr h" sorted_list_of_fset
      "''http://www.ics.uci.edu/gone''" initial]
  note P = extract_next_links_rejects[OF p, of "\<lambda>b h. Inr h" sorted_list_of_fset
      "''http://www.ics.uci.edu/doc''" initial]
  have "extract_next_links (\<lambda>b h. Inr h) sorted_list_of_fset ''http://www.ics.uci.edu/doc'' ?pdf initial
       = (Inr [], initial\<lparr>seen := {''http://www.ics.uci.edu/doc''}\<rparr>)"
    using P s by (cases "extract_next_links (\<lambda>b h. Inr h) sorted_list_of_fset ''http://www.ics.uci.edu/doc'' ?pdf initial")
      (auto simp: crawler.equality)
  with G s show ?thesis by simp
qed

text \<open>
  Claim C9 as stated fails. The content type \<open>text/plain; note=text/html\<close> is not an
  HTML type, but it contains the text the code looks for: the link of the page is
  returned and the page is recorded in the analytics.
\<close>

theorem extract_next_links_substring_counterexample:
  "fst (extract_next_links (\<lambda>b h. Inr h) sorted_list_of_fset ''http://www.ics.uci.edu/notes''
      \<lparr>resp_url = ''http://www.ics.uci.edu/notes'', status = 200,
        raw = Some \<lparr>raw_url = ''http://www.ics.uci.edu/notes'',
                     headers = [''Content-Type'' \<mapsto> ''text/plain; note=text/html''],
                     page_text = ''a b'', hrefs = [''http://www.ics.uci.edu/a'']\<rparr>\<rparr> initial)
     = Inr [''http://www.ics.uci.edu/a'']
   \<and> word_frequencies (data (analytics (snd
       (extract_next_links (\<lambda>b h. Inr h) sorted_list_of_fset ''http://www.ics.uci.edu/notes''
          \<lparr>resp_url = ''http://www.ics.uci.edu/notes'', status = 200,
            raw = Some \<lparr>raw_url = ''http://www.ics.uci.edu/notes'',
                         headers = [''Content-Type'' \<mapsto> ''text/plain; note=text/html''],
                         page_text = ''a b'', hrefs = [''http://www.ics.uci.edu/a'']\<rparr>\<rparr> initial))))
     = [(''a'', 1), (''b'', 1)]
   \<and> word_frequencies (data (analytics initial)) = []"
  by code_simp

text \<open>
  Claim C2, as the code has it. \<open>is_valid\<close> reads the \<open>seen\<close> set: its answer is the
  answer for an empty \<open>seen\<close> set (scheme, domain and extension alone), and \<open>False\<close>
  instead of \<open>True\<close> for a URL that is in the set. For two sets that both lack the URL
  the answers agree.
\<close>

theorem is_valid_reads_seen:
  "is_valid S u = (case is_valid {} u of Inl e \<Rightarrow> Inl e | Inr b \<Rightarrow> Inr (b \<and> u \<notin> S))
   \<and> (u \<notin> S1 \<and> u \<notin> S2 \<longrightarrow> is_valid S1 u = is_valid S2 u)"
proof -
  have "is_valid S1 u = is_valid S2 u" if "u \<notin> S1" "u \<notin> S2"
    unfolding is_valid_seen_split[of S1 u] is_valid_seen_split[of S2 u]
    using that by (simp split: sum.splits)
  then show ?thesis using is_valid_seen_split[of S u] by blast
qed

text \<open>The theorem for a URL in scope and a \<open>seen\<close> set that holds another URL.\<close>

theorem is_valid_reads_seen_witness:
  "is_valid {''http://www.ics.uci.edu/b''} ''http://www.ics.uci.edu/a'' = Inr True
   \<and> is_valid {''http://www.ics.uci.edu/b''} ''http://www.ics.uci.edu/a''
      = is_valid {''http://www.ics.uci.edu/c''} ''http://www.ics.uci.edu/a''"
proof -
  have e: "is_valid {} ''http://www.ics.uci.edu/a'' = Inr True" by code_simp
  have n: "''http://www.ics.uci.edu/a'' \<notin> {''http://www.ics.uci.edu/b''}
      \<and> ''http://www.ics.uci.edu/a'' \<notin> {''http://www.ics.uci.edu/c''}" by simp
  note T = is_valid_reads_seen[of "{''http://www.ics.uci.edu/b''}" "''http://www.ics.uci.edu/a''"
      "{''http://www.ics.uci.edu/b''}" "{''http://www.ics.uci.edu/c''}"]
  have "is_valid {''http://www.ics.uci.edu/b''} ''http://www.ics.uci.edu/a'' = Inr True"
    using T e by (simp split: sum.splits)
  moreover have "is_valid {''http://www.ics.uci.edu/b''} ''http://www.ics.uci.edu/a''
      = is_valid {''http://www.ics.uci.edu/c''} ''http://www.ics.uci.edu/a''"
    using T n by blast
  ultimately show ?thesis by blast
qed

text \<open>
  Claim C2 as stated fails: the same URL is eligible with an empty \<open>seen\<close> set and not
  eligible once it is in the set.
\<close>

theorem is_valid_seen_counterexample:
  "is_valid {} ''http://www.ics.uci.edu/a'' = Inr True
   \<and> is_valid {''http://www.ics.uci.edu/a''} ''http://www.ics.uci.edu/a'' = Inr False"
  by code_simp

text \<open>
  Claim C1, as the code has it. The \<open>seen\<close> set grows by the requested URL of every
  callback and by nothing else; \<open>is_valid\<close> checks it and never inserts. So after any
  run of callbacks a URL that was requested (or was in the set before) is never reported
  eligible, and a URL that was not is reported as with an empty set, at every check,
  until it is requested.
\<close>

theorem seen_after_crawl:
  "seen (crawl urljoin enum calls st) = seen st \<union> fst ` set calls
   \<and> (u \<in> seen st \<union> fst ` set calls \<longrightarrow>
        is_valid (seen (crawl urljoin enum calls st)) u \<noteq> Inr True)
   \<and> (u \<notin> seen st \<union> fst ` set calls \<longrightarrow>
        is_valid (seen (crawl urljoin enum calls st)) u = is_valid {} u)"
proof -
  let ?S = "seen (crawl urljoin enum calls st)"
  have s: "?S = seen st \<union> fst ` set calls" by (rule seen_crawl)
  have 1: "is_valid ?S u \<noteq> Inr True" if "u \<in> ?S"
    unfolding is_valid_seen_split[of ?S u] using that by (simp split: sum.splits)
  have 2: "is_valid ?S u = is_valid {} u" if "u \<notin> ?S"
    unfolding is_valid_seen_split[of ?S u] using that by (simp split: sum.splits)
  show ?thesis using 1 2 unfolding s by blast
qed

text \<open>
  The theorem after one callback for \<open>/a\<close>, which came back with status 404: \<open>/a\<close> is no
  longer eligible, \<open>/b\<close> still is.
\<close>

theorem seen_after_crawl_witness:
  "is_valid (seen (crawl (\<lambda>b h. Inr h) sorted_list_of_fset
       [(''http://www.ics.uci.edu/a'',
         \<lparr>resp_url = ''http://www.ics.uci.edu/a'', status = 404, raw = None\<rparr>)] initial))
     ''http://www.ics.uci.edu/a'' \<noteq> Inr True
   \<and> is_valid (seen (crawl (\<lambda>b h. Inr h) sorted_list_of_fset
       [(''http://www.ics.uci.edu/a'',
         \<lparr>resp_url = ''http://www.ics.uci.edu/a'', status = 404, raw = None\<rparr>)] initial))
     ''http://www.ics.uci.edu/b'' = Inr True"
proof -
  let ?calls = "[(''http://www.ics.uci.edu/a'',
         \<lparr>resp_url = ''http://www.ics.uci.edu/a'', status = 404, raw = None\<rparr>)]"
  have s: "seen initial = {}" by (simp add: initial_def)
  have e: "is_valid {} ''http://www.ics.uci.edu/b'' = Inr True" by code_simp
  have a: "''http://www.ics.uci.edu/a'' \<in> seen initial \<union> fst ` set ?calls" by simp
  have b: "''http://www.ics.uci.edu/b'' \<notin> seen initial \<union> fst ` set ?calls" by (simp add: s)
  from seen_after_crawl[of "\<lambda>b h. Inr h" sorted_list_of_fset ?calls initial
      "''http://www.ics.uci.edu/a''"] a
  have 1: "is_valid (seen (crawl (\<lambda>b h. Inr h) sorted_list_of_fset ?calls initial))
     ''http://www.ics.uci.edu/a'' \<noteq> Inr True" by blast
  from seen_after_crawl[of "\<lambda>b h. Inr h" sorted_list_of_fset ?calls initial
      "''http://www.ics.uci.edu/b''"] b
  have "is_valid (seen (crawl (\<lambda>b h. Inr h) sorted_list_of_fset ?calls initial))
     ''http://www.ics.uci.edu/b'' = is_valid {} ''http://www.ics.uci.edu/b''" by blast
  with 1 e show ?thesis by simp
qed

text \<open>
  Claim C1 as stated fails. A URL is reported eligible, a callback for another URL
  runs, and the same URL is reported eligible again; and one callback on a page with
  two links to the same URL returns that URL twice.
\<close>

theorem is_valid_twice_counterexample:
  "is_valid (seen initial) ''http://www.ics.uci.edu/a'' = Inr True
   \<and> is_valid (seen (crawl (\<lambda>b h. Inr h) sorted_list_of_fset
        [(''http://www.ics.uci.edu/gone'',
          \<lparr>resp_url = ''http://www.ics.uci.edu/gone'', status = 404, raw = None\<rparr>)] initial))
      ''http://www.ics.uci.edu/a'' = Inr True
   \<and> fst (scraper (\<lambda>b h. Inr h) sorted_list_of_fset ''http://www.ics.uci.edu/''
        \<lparr>resp_url = ''http://www.ics.uci.edu/'', status = 200,
          raw = Some \<lparr>raw_url = ''http://www.ics.uci.edu/'',
                       headers = [''Content-Type'' \<mapsto> ''text/html; charset=utf-8''],
                       page_text = ''cat dog cat'',
                       hrefs = [''http://www.ics.uci.edu/a#top'', ''http://www.ics.uci.edu/a'']\<rparr>\<rparr>
        initial)
      = Inr [''http://www.ics.uci.edu/a'', ''http://www.ics.uci.edu/a'']"
  by code_simp

end
